theory Spec2Isabelle
  imports Main "HOL-Library.Word" "HOL-Library.Char_ord"
begin

unbundle bit_operations_syntax

section \<open>Format.h: argument tags, the variadic arguments and the two sinks\<close>

text \<open>
  Bytes (\<open>uint8_t\<close>, \<open>char\<close>) are \<^typ>\<open>char\<close>, the terminator is \<open>CHR 0x00\<close>, and a
  C string is the list of the bytes in front of its terminator. Where the source reads a
  byte as a number, the model writes \<open>of_char\<close>; where it stores a number into a byte,
  \<open>char_of\<close> (which keeps the low eight bits).

  Two things the source leaves undefined are values of \<open>error\<close> in the model: reading the
  format string behind its terminator, and \<open>va_arg\<close> with no argument left or with an
  argument of another type.
\<close>

datatype Type = i8 | i16 | i32 | flt | str | ptr

datatype error = OutOfBounds nat | VaArgUndefined

text \<open>
  One element of the \<open>va_list\<close>: an integer read with \<open>va_arg(_args, uint32_t)\<close>, a
  \<open>double\<close> (kept as the 32 bits of \<open>floatToInt(float(d))\<close>, the only thing the engine
  looks at), or a \<open>const char*\<close> (kept as the string it points to).
\<close>

datatype va_arg = VaInt "32 word" | VaDouble "32 word" | VaStr string

text \<open>
  The dynamic type of the \<open>FormatterArgs\<close> object: \<open>NativePrintArgs\<close> hands every byte to
  \<open>::putChar\<close> (the bytes written so far are \<open>Device out\<close>); \<open>NativeFormatArgs\<close> has
  \<open>_buf\<close>, \<open>_size\<close> and \<open>_index\<close>.
\<close>

datatype sink = Device string | Buffer string "16 word" "16 word"

record FormatterArgs =
  fmt_s :: string
  va_args :: "va_arg list"
  sink :: sink

text \<open>\<open>getChar(i)\<close> is \<open>_fmt[i]\<close>: inside the array up to and including the terminator.\<close>

definition getChar :: "FormatterArgs \<Rightarrow> nat \<Rightarrow> error + char" where
  "getChar f i =
     (if i < length (fmt_s f) then Inr (fmt_s f ! i)
      else if i = length (fmt_s f) then Inr (CHR 0x00)
      else Inl (OutOfBounds i))"

text \<open>
  \<open>NativeFormatArgs::putChar\<close> compares \<open>_index < _size - 1\<close> after integer promotion, so
  the comparison is on \<open>int\<close> and \<open>_size = 0\<close> stores nothing.
\<close>

definition putChar :: "char \<Rightarrow> FormatterArgs \<Rightarrow> FormatterArgs" where
  "putChar c f =
     (case sink f of
        Device out \<Rightarrow> f\<lparr>sink := Device (out @ [c])\<rparr>
      | Buffer buf n idx \<Rightarrow>
          (if uint idx < uint n - 1
           then f\<lparr>sink := Buffer (buf[unat idx := c]) n (idx + 1)\<rparr>
           else f))"

text \<open>\<open>end()\<close>: nothing for the base class, \<open>putChar('\0')\<close> for \<open>NativeFormatArgs\<close>.\<close>

definition sink_end :: "FormatterArgs \<Rightarrow> FormatterArgs" where
  "sink_end f =
     (case sink f of
        Device out \<Rightarrow> f
      | Buffer buf n idx \<Rightarrow> putChar (CHR 0x00) f)"

text \<open>
  \<open>getArg(type)\<close> for every tag but \<open>Type::str\<close>: the \<open>uintptr_t\<close> it returns is the
  zero-extended 32-bit value. The tag only separates \<open>flt\<close> from the integer tags.
\<close>

definition getArg :: "Type \<Rightarrow> FormatterArgs \<Rightarrow> error + (64 word \<times> FormatterArgs)" where
  "getArg t f =
     (case va_args f of
        [] \<Rightarrow> Inl VaArgUndefined
      | a # rest \<Rightarrow>
          (if t = flt then
             (case a of VaDouble bits \<Rightarrow> Inr (ucast bits, f\<lparr>va_args := rest\<rparr>)
                      | _ \<Rightarrow> Inl VaArgUndefined)
           else if t = str then Inl VaArgUndefined
           else
             (case a of VaInt w \<Rightarrow> Inr (ucast w, f\<lparr>va_args := rest\<rparr>)
                      | _ \<Rightarrow> Inl VaArgUndefined)))"

text \<open>
  \<open>getArg(Type::str)\<close>: the pointer it returns is modelled by the string behind it, and
  \<open>getStringChar(p)\<close> reads the first byte of what is left of that string (the terminator
  once nothing is left); \<open>p++\<close> is \<open>tl\<close>.
\<close>

definition getArgStr :: "FormatterArgs \<Rightarrow> error + (string \<times> FormatterArgs)" where
  "getArgStr f =
     (case va_args f of
        VaStr s # rest \<Rightarrow> Inr (s, f\<lparr>va_args := rest\<rparr>)
      | _ \<Rightarrow> Inl VaArgUndefined)"

definition getStringChar :: "string \<Rightarrow> char" where
  "getStringChar p = (case p of [] \<Rightarrow> CHR 0x00 | c # _ \<Rightarrow> c)"

text \<open>The bytes \<open>cs\<close> handed to \<open>putChar\<close> one after the other.\<close>

definition putChars :: "string \<Rightarrow> FormatterArgs \<Rightarrow> FormatterArgs" where
  "putChars cs f = fold putChar cs f"

section \<open>Flags\<close>

datatype Flag = leftJustify | plus_flag | space | alt | zeroPad

fun flag_bit :: "Flag \<Rightarrow> 8 word" where
  "flag_bit leftJustify = 0x01"
| "flag_bit plus_flag = 0x02"
| "flag_bit space = 0x04"
| "flag_bit alt = 0x08"
| "flag_bit zeroPad = 0x10"

definition isFlag :: "8 word \<Rightarrow> Flag \<Rightarrow> bool" where
  "isFlag flags flag = (flags AND flag_bit flag \<noteq> 0)"

definition setFlag :: "8 word \<Rightarrow> Flag \<Rightarrow> 8 word" where
  "setFlag flags flag = flags OR flag_bit flag"

datatype Capital = CapitalYes | CapitalNo

datatype Signed = SignedYes | SignedNo

datatype Length = LNone | H | HH | L | LL | J | Z | T

definition MaxIntegerBufferSize :: nat where
  "MaxIntegerBufferSize = 24"

section \<open>The specifier parser\<close>

text \<open>
  The cursor \<open>fmt\<close> is a \<open>uint32_t\<close> in the source and a \<^typ>\<open>nat\<close> here: it never
  exceeds the length of the format string by more than three, so the two agree for
  every format string shorter than \<open>2 ^ 32 - 3\<close> bytes.

  \<open>toNumber\<close>: the accumulator \<open>n\<close> is a \<open>uint32_t\<close> and wraps. The result is
  \<open>(haveNumber, fmt, n)\<close>.
\<close>

function toNumber_loop ::
  "FormatterArgs \<Rightarrow> nat \<Rightarrow> 32 word \<Rightarrow> bool \<Rightarrow> error + (bool \<times> nat \<times> 32 word)" where
  "toNumber_loop f fmt n haveNumber =
     (case getChar f fmt of
        Inl e \<Rightarrow> Inl e
      | Inr c \<Rightarrow>
          (if c < CHR ''0'' \<or> c > CHR ''9'' then Inr (haveNumber, fmt, n)
           else toNumber_loop f (fmt + 1) (n * 10 + of_char c - 48) True))"
  by pat_completeness auto
termination
proof (relation "measure (\<lambda>(f, fmt, n, h). length (fmt_s f) - fmt)")
  show "wf (measure (\<lambda>(f, fmt, n, h). length (fmt_s f) - fmt))"
    by simp
next
  fix f :: FormatterArgs and fmt :: nat and n :: "32 word" and haveNumber :: bool and c :: char
  assume "getChar f fmt = Inr c" and "\<not> (c < CHR ''0'' \<or> c > CHR ''9'')"
  then have "fmt < length (fmt_s f)"
    by (auto simp: getChar_def split: if_splits)
  then show "((f, fmt + 1, n * 10 + of_char c - 48, True), (f, fmt, n, haveNumber))
      \<in> measure (\<lambda>(f, fmt, n, h). length (fmt_s f) - fmt)"
    by simp
qed

declare toNumber_loop.simps [simp del]

definition toNumber :: "FormatterArgs \<Rightarrow> nat \<Rightarrow> error + (bool \<times> nat \<times> 32 word)" where
  "toNumber f fmt = toNumber_loop f fmt 0 False"

text \<open>
  \<open>handleFlags\<close>: the \<open>case\<close> labels of its \<open>switch\<close> are \<open>flagOfChar\<close>; \<open>default\<close> returns.
  The result is \<open>(fmt, flags)\<close>.
\<close>

definition flagOfChar :: "char \<Rightarrow> Flag option" where
  "flagOfChar c =
     (if c = CHR ''-'' then Some leftJustify
      else if c = CHR ''+'' then Some plus_flag
      else if c = CHR '' '' then Some space
      else if c = CHR ''#'' then Some alt
      else if c = CHR ''0'' then Some zeroPad
      else None)"

function handleFlags :: "FormatterArgs \<Rightarrow> nat \<Rightarrow> 8 word \<Rightarrow> error + (nat \<times> 8 word)" where
  "handleFlags f fmt flags =
     (case getChar f fmt of
        Inl e \<Rightarrow> Inl e
      | Inr c \<Rightarrow>
          (case flagOfChar c of
             None \<Rightarrow> Inr (fmt, flags)
           | Some flag \<Rightarrow> handleFlags f (fmt + 1) (setFlag flags flag)))"
  by pat_completeness auto
termination
proof (relation "measure (\<lambda>(f, fmt, flags). length (fmt_s f) - fmt)", goal_cases)
  case 1
  show ?case by simp
next
  case (2 f fmt flags c flag)
  then have "fmt < length (fmt_s f)"
    by (auto simp: getChar_def flagOfChar_def split: if_splits)
  then show ?case by simp
qed

declare handleFlags.simps [simp del]

text \<open>
  \<open>handleWidth\<close>: \<open>int32_t(f->getArg(Type::i16))\<close> keeps the low 32 bits and reads them as
  signed; \<open>static_cast<int32_t>(n)\<close> reads the accumulator as signed. The result is
  \<open>(value, fmt, f)\<close>.
\<close>

definition handleWidth :: "FormatterArgs \<Rightarrow> nat \<Rightarrow> error + (int \<times> nat \<times> FormatterArgs)" where
  "handleWidth f fmt =
     (case getChar f fmt of
        Inl e \<Rightarrow> Inl e
      | Inr c \<Rightarrow>
          (if c = CHR ''*'' then
             (case getArg i16 f of
                Inl e \<Rightarrow> Inl e
              | Inr (v, f') \<Rightarrow> Inr (sint (ucast v :: 32 word), fmt + 1, f'))
           else
             (case toNumber f fmt of
                Inl e \<Rightarrow> Inl e
              | Inr (haveNumber, fmt', n) \<Rightarrow>
                  Inr (if haveNumber then sint n else - 1, fmt', f))))"

definition handleLength :: "FormatterArgs \<Rightarrow> nat \<Rightarrow> error + (Length \<times> nat)" where
  "handleLength f fmt =
     (case getChar f fmt of
        Inl e \<Rightarrow> Inl e
      | Inr c \<Rightarrow>
          (if c = CHR ''h'' then
             (case getChar f (fmt + 1) of
                Inl e \<Rightarrow> Inl e
              | Inr c' \<Rightarrow> if c' = CHR ''h'' then Inr (HH, fmt + 2) else Inr (H, fmt + 1))
           else if c = CHR ''l'' then
             (case getChar f (fmt + 1) of
                Inl e \<Rightarrow> Inl e
              | Inr c' \<Rightarrow> if c' = CHR ''l'' then Inr (LL, fmt + 2) else Inr (L, fmt + 1))
           else if c = CHR ''j'' then Inr (J, fmt)
           else if c = CHR ''z'' then Inr (Z, fmt)
           else if c = CHR ''t'' then Inr (T, fmt)
           else Inr (LNone, fmt)))"

section \<open>The numeric renderer\<close>

text \<open>
  \<open>intToString\<close> fills \<open>buf\<close> from the back and returns a pointer \<open>p\<close> into it. The model
  returns the offset \<open>p - buf\<close> together with the string that starts at \<open>p\<close>. The loop
  below is the \<open>while (value)\<close> of the source, \<open>acc\<close> being the digits stored so far.
  The source divides by \<open>base\<close>, which its callers only ever set to 8, 10 or 16; the
  model's loop stops at once for \<open>base < 2\<close>, where the source would divide by zero or
  never stop. With \<open>base \<ge> 8\<close> a 64-bit value has at most 22 digits, so \<open>p\<close> stays inside
  the 24 bytes of \<open>buf\<close>.
\<close>

lemma unat_ucast_base: "unat (ucast (base :: 8 word) :: 64 word) = unat base"
  by (simp add: unsigned_ucast_eq take_bit_nat_eq_self_iff)
     (rule less_trans [OF unsigned_less], simp)

text \<open>The character for one digit: \<open>(digit > 9) ? (digit - 10 + hexBase) : (digit + '0')\<close>.\<close>

definition digitChar :: "nat \<Rightarrow> char \<Rightarrow> char" where
  "digitChar digit hexBase =
     (if digit > 9 then char_of (digit - 10 + of_char hexBase)
      else char_of (digit + of_char (CHR ''0'')))"

function intToString_loop :: "64 word \<Rightarrow> 8 word \<Rightarrow> char \<Rightarrow> string \<Rightarrow> string" where
  "intToString_loop v base hexBase acc =
     (if v = 0 \<or> base < 2 then acc
      else
        (let digit = unat (v mod ucast base)
         in intToString_loop (v div ucast base) base hexBase (digitChar digit hexBase # acc)))"
  by pat_completeness auto
termination
proof (relation "measure (\<lambda>(v, base, hexBase, acc). unat v)", goal_cases)
  case 1
  show ?case by simp
next
  case (2 v base hexBase acc digit)
  then have v: "0 < unat v" and b: "2 \<le> unat base"
    by (simp_all add: unat_gt_0 word_le_nat_alt not_less)
  have "unat (ucast base :: 64 word) = unat base"
    by (rule unat_ucast_base)
  then have "unat (v div ucast base) = unat v div unat base"
    by (simp add: unat_div)
  with v b show ?case by simp
qed

declare intToString_loop.simps [simp del]

definition intToString :: "64 word \<Rightarrow> nat \<Rightarrow> 8 word \<Rightarrow> Capital \<Rightarrow> nat \<times> string" where
  "intToString v sz base cap =
     (if v = 0 then (0, ''0'')
      else
        (let hexBase = (if cap = CapitalYes then CHR ''A'' else CHR ''a'');
             ds = intToString_loop v base hexBase []
         in (sz - 1 - length ds, ds)))"

section \<open>The field formatter\<close>

text \<open>The padding loops: \<open>while (pad > 0)\<close> of \<open>outInteger\<close> and \<open>while (width--)\<close> of
  \<open>outString\<close> both hand \<open>n\<close> copies of one byte to \<open>putChar\<close>.\<close>

primrec putPad :: "nat \<Rightarrow> char \<Rightarrow> FormatterArgs \<Rightarrow> FormatterArgs" where
  "putPad 0 c f = f"
| "putPad (Suc n) c f = putPad n c (putChar c f)"

text \<open>
  \<open>outInteger\<close>: \<open>value\<close> is a \<open>uintmax_t\<close>, \<open>size\<close> a \<open>uint32_t\<close> that is returned as
  \<open>int32_t\<close>, \<open>width\<close> and \<open>pad\<close> are \<open>int32_t\<close> (their overflow is undefined in the
  source and not modelled). The result is the returned size and the sink.
\<close>

definition outInteger ::
  "FormatterArgs \<Rightarrow> 64 word \<Rightarrow> Signed \<Rightarrow> int \<Rightarrow> int \<Rightarrow> 8 word \<Rightarrow> 8 word \<Rightarrow> Capital
     \<Rightarrow> int \<times> FormatterArgs" where
  "outInteger f v sign width precision flags base cap =
     (let (v1, f1, size1, width1) =
            (if sign = SignedYes \<and> sint v < 0
             then (- v, putChar (CHR ''-'') f, 1 :: 32 word, width - 1)
             else (v, f, 0, width));
          (f2, size2, width2) =
            (if isFlag flags alt \<and> base \<noteq> 10 then
               (if base = 16
                then (putChar (if cap = CapitalYes then CHR ''X'' else CHR ''x'')
                        (putChar (CHR ''0'') f1), size1 + 2, width1 - 2)
                else (putChar (CHR ''0'') f1, size1 + 1, width1 - 1))
             else (f1, size1, width1));
          (off, p) = intToString v1 MaxIntegerBufferSize base cap;
          size3 = size2 + of_nat off;
          pad = width2 - int (length p);
          padChar = (if isFlag flags zeroPad then CHR ''0'' else CHR '' '');
          f3 = putPad (nat pad) padChar f2;
          size4 = size3 + of_nat (nat pad)
      in (sint size4, putChars p f3))"

text \<open>\<open>outString\<close>: the loop over the string, then the padding. It returns \<open>size\<close>.\<close>

function outString_loop :: "string \<Rightarrow> FormatterArgs \<Rightarrow> int \<Rightarrow> int \<times> FormatterArgs" where
  "outString_loop p f sz =
     (let c = getStringChar p
      in if c = CHR 0x00 then (sz, f)
         else outString_loop (tl p) (putChar c f) (sz + 1))"
  by pat_completeness auto
termination
  by (relation "measure (\<lambda>(p, f, sz). length p)")
     (auto simp: getStringChar_def split: list.splits)

declare outString_loop.simps [simp del]

definition outString ::
  "FormatterArgs \<Rightarrow> string \<Rightarrow> int \<Rightarrow> int \<Rightarrow> 8 word \<Rightarrow> int \<times> FormatterArgs" where
  "outString f p width precision flags =
     (let (sz, f1) = outString_loop p f 0
      in if width > sz then (sz, putPad (nat (width - sz)) (CHR '' '') f1)
         else (sz, f1))"

section \<open>The engine\<close>

text \<open>
  The float-to-string routine \<open>toString\<close> of the header is outside the engine (\<open>snprintf\<close>
  or \<open>dtostrf\<close>); it is the parameter \<open>ts\<close> below: given the 32 bits of the float, the width
  converted to \<open>int8_t\<close> and the precision converted to \<open>uint8_t\<close>, it yields the bytes it
  leaves in \<open>buf\<close>, of which the engine emits those in front of the first terminator.
\<close>

type_synonym toString = "32 word \<Rightarrow> 8 word \<Rightarrow> 8 word \<Rightarrow> string"

text \<open>\<open>getInteger\<close> ignores \<open>length\<close> and returns the \<open>int32_t\<close> as its 32 bits.\<close>

definition getInteger :: "Length \<Rightarrow> FormatterArgs \<Rightarrow> error + (32 word \<times> FormatterArgs)" where
  "getInteger len f =
     (case getArg i16 f of
        Inl e \<Rightarrow> Inl e
      | Inr (v, f') \<Rightarrow> Inr (ucast v, f'))"

text \<open>
  The \<open>switch\<close> on the specifier character of \<open>doprintf\<close>. Passing the \<open>int32_t\<close> of
  \<open>getInteger\<close> for the \<open>uintmax_t\<close> parameter of \<open>outInteger\<close> sign-extends it
  (\<open>scast\<close>); the \<open>uintptr_t\<close> of \<open>getArg(Type::ptr)\<close> is passed as it is. The result is
  the sink, the cursor and \<open>size\<close> as the \<open>switch\<close> leaves them.
\<close>

definition doprintf_switch ::
  "toString \<Rightarrow> FormatterArgs \<Rightarrow> nat \<Rightarrow> int \<Rightarrow> int \<Rightarrow> int \<Rightarrow> 8 word \<Rightarrow> Length
     \<Rightarrow> error + (FormatterArgs \<times> nat \<times> int)" where
  "doprintf_switch ts f fmt sz width precision flags len =
     (case getChar f fmt of
        Inl e \<Rightarrow> Inl e
      | Inr c \<Rightarrow>
          (if c = CHR ''d'' \<or> c = CHR ''i'' then
             (case getInteger len f of
                Inl e \<Rightarrow> Inl e
              | Inr (v, f1) \<Rightarrow>
                  (let (n, f2) = outInteger f1 (scast v) SignedYes width precision flags 10 CapitalNo
                   in Inr (f2, fmt, sz + n)))
           else if c = CHR ''u'' then
             (case getInteger len f of
                Inl e \<Rightarrow> Inl e
              | Inr (v, f1) \<Rightarrow>
                  (let (n, f2) = outInteger f1 (scast v) SignedNo width precision flags 10 CapitalNo
                   in Inr (f2, fmt, sz + n)))
           else if c = CHR ''o'' then
             (case getInteger len f of
                Inl e \<Rightarrow> Inl e
              | Inr (v, f1) \<Rightarrow>
                  (let (n, f2) = outInteger f1 (scast v) SignedNo width precision flags 8 CapitalNo
                   in Inr (f2, fmt, sz + n)))
           else if c = CHR ''x'' \<or> c = CHR ''X'' then
             (case getInteger len f of
                Inl e \<Rightarrow> Inl e
              | Inr (v, f1) \<Rightarrow>
                  (let (n, f2) = outInteger f1 (scast v) SignedNo width precision flags 16
                                   (if c = CHR ''X'' then CapitalYes else CapitalNo)
                   in Inr (f2, fmt, sz + n)))
           else if c \<in> set ''fFeEgG'' then
             (case getArg flt f of
                Inl e \<Rightarrow> Inl e
              | Inr (v, f1) \<Rightarrow>
                  Inr (putChars
                         (takeWhile (\<lambda>b. b \<noteq> CHR 0x00)
                            (ts (ucast v) (word_of_int width)
                               (word_of_int (if precision < 0 then 6 else precision))))
                         f1, fmt, sz))
           else if c = CHR ''c'' then
             (case getArg i8 f of
                Inl e \<Rightarrow> Inl e
              | Inr (v, f1) \<Rightarrow> Inr (putChar (char_of (unat v)) f1, fmt, sz + 1))
           else if c = CHR ''b'' then
             (case getArg i8 f of
                Inl e \<Rightarrow> Inl e
              | Inr (v, f1) \<Rightarrow>
                  Inr (putChars (if v \<noteq> 0 then ''true'' else ''false'') f1, fmt, sz))
           else if c = CHR ''s'' then
             (case getArgStr f of
                Inl e \<Rightarrow> Inl e
              | Inr (p, f1) \<Rightarrow>
                  (let (n, f2) = outString f1 p width precision flags
                   in Inr (f2, fmt, sz + n)))
           else if c = CHR ''p'' then
             (case getArg ptr f of
                Inl e \<Rightarrow> Inl e
              | Inr (v, f1) \<Rightarrow>
                  (let (n, f2) = outInteger f1 v SignedNo width precision flags 16 CapitalNo
                   in Inr (f2, fmt, sz + n)))
           else Inr (putChar c f, fmt + 1, sz + 1)))"

text \<open>
  The optional part of a directive, from the cursor behind \<open>%\<close>: \<open>handleFlags\<close> (on the
  \<open>flags\<close> of the caller), \<open>handleWidth\<close>, the precision, \<open>handleLength\<close>. The result is
  \<open>(flags, width, precision, length, fmt, f)\<close>.
\<close>

definition doprintf_optional ::
  "FormatterArgs \<Rightarrow> nat \<Rightarrow> 8 word
     \<Rightarrow> error + (8 word \<times> int \<times> int \<times> Length \<times> nat \<times> FormatterArgs)" where
  "doprintf_optional f fmt flags =
     (case handleFlags f fmt flags of
        Inl e \<Rightarrow> Inl e
      | Inr (fmt1, flags1) \<Rightarrow>
     (case handleWidth f fmt1 of
        Inl e \<Rightarrow> Inl e
      | Inr (width, fmt2, f2) \<Rightarrow>
     (case getChar f2 fmt2 of
        Inl e \<Rightarrow> Inl e
      | Inr c \<Rightarrow>
     (case (if c = CHR ''.'' then handleWidth f2 (fmt2 + 1) else Inr (- 1, fmt2, f2)) of
        Inl e \<Rightarrow> Inl e
      | Inr (precision, fmt3, f3) \<Rightarrow>
     (case handleLength f3 fmt3 of
        Inl e \<Rightarrow> Inl e
      | Inr (len, fmt4) \<Rightarrow> Inr (flags1, width, precision, len, fmt4, f3))))))"

text \<open>
  One directive, from the cursor behind \<open>%\<close> to the \<open>++fmt\<close> behind the \<open>switch\<close>. The
  result is \<open>(f, fmt, flags, size)\<close> as the next turn of the loop finds them.
\<close>

definition doprintf_directive ::
  "toString \<Rightarrow> FormatterArgs \<Rightarrow> nat \<Rightarrow> 8 word \<Rightarrow> int
     \<Rightarrow> error + (FormatterArgs \<times> nat \<times> 8 word \<times> int)" where
  "doprintf_directive ts f fmt flags sz =
     (case doprintf_optional f fmt flags of
        Inl e \<Rightarrow> Inl e
      | Inr (flags1, width, precision, len, fmt1, f1) \<Rightarrow>
          (case doprintf_switch ts f1 fmt1 sz width precision flags1 len of
             Inl e \<Rightarrow> Inl e
           | Inr (f2, fmt2, sz2) \<Rightarrow> Inr (f2, fmt2 + 1, flags1, sz2)))"

section \<open>Reading a digit string back\<close>

text \<open>
  The round-trip property of the spec speaks of "parsing the result as hexadecimal". The
  source has no parser of its own, so \<open>parseHex\<close> follows the spec's words: the usual
  positional reading, most significant digit first, of the digits \<open>0-9\<close>, \<open>a-f\<close> and
  \<open>A-F\<close>.
\<close>

definition hexDigitValue :: "char \<Rightarrow> nat" where
  "hexDigitValue c =
     (if CHR ''0'' \<le> c \<and> c \<le> CHR ''9'' then of_char c - 48
      else if CHR ''a'' \<le> c \<and> c \<le> CHR ''f'' then of_char c - 87
      else if CHR ''A'' \<le> c \<and> c \<le> CHR ''F'' then of_char c - 55
      else 0)"

definition parseHex :: "string \<Rightarrow> nat" where
  "parseHex s = foldl (\<lambda>n c. 16 * n + hexDigitValue c) 0 s"

section \<open>The cursor only advances and the format string stays\<close>

lemma fmt_s_putChar [simp]: "fmt_s (putChar c f) = fmt_s f"
  by (simp add: putChar_def split: sink.splits)

lemma fmt_s_putChars [simp]: "fmt_s (putChars cs f) = fmt_s f"
  unfolding putChars_def by (induction cs arbitrary: f) simp_all

lemma fmt_s_putPad [simp]: "fmt_s (putPad n c f) = fmt_s f"
  by (induction n arbitrary: f) simp_all

lemma fmt_s_sink_end [simp]: "fmt_s (sink_end f) = fmt_s f"
  by (simp add: sink_end_def split: sink.splits)

lemma fmt_s_getArg: "getArg t f = Inr (v, f') \<Longrightarrow> fmt_s f' = fmt_s f"
  by (auto simp: getArg_def split: list.splits if_splits va_arg.splits)

lemma fmt_s_getArgStr: "getArgStr f = Inr (p, f') \<Longrightarrow> fmt_s f' = fmt_s f"
  by (auto simp: getArgStr_def split: list.splits va_arg.splits)

lemma fmt_s_getInteger: "getInteger len f = Inr (v, f') \<Longrightarrow> fmt_s f' = fmt_s f"
  by (auto simp: getInteger_def split: sum.splits dest: fmt_s_getArg)

lemma fmt_s_outInteger:
  "outInteger f v sign width precision flags base cap = (n, f') \<Longrightarrow> fmt_s f' = fmt_s f"
  by (auto simp: outInteger_def Let_def split: if_splits prod.splits)

lemma fmt_s_outString_loop: "outString_loop p f sz = (n, f') \<Longrightarrow> fmt_s f' = fmt_s f"
proof (induction p f sz rule: outString_loop.induct)
  case (1 p f sz)
  show ?case
  proof (cases "getStringChar p = CHR 0x00")
    case True
    with "1.prems" show ?thesis by (simp add: outString_loop.simps [of p])
  next
    case False
    with "1.prems" have "outString_loop (tl p) (putChar (getStringChar p) f) (sz + 1) = (n, f')"
      by (simp add: outString_loop.simps [of p])
    from "1.IH" [OF refl False this] show ?thesis by simp
  qed
qed

lemma fmt_s_outString:
  "outString f p width precision flags = (n, f') \<Longrightarrow> fmt_s f' = fmt_s f"
  by (auto simp: outString_def split: prod.splits if_splits dest: fmt_s_outString_loop)

lemma toNumber_loop_cursor: "toNumber_loop f fmt n h = Inr (h', fmt', n') \<Longrightarrow> fmt \<le> fmt'"
proof (induction f fmt n h rule: toNumber_loop.induct)
  case (1 f fmt n haveNumber)
  from "1.prems" obtain c where c: "getChar f fmt = Inr c"
    by (cases "getChar f fmt") (simp_all add: toNumber_loop.simps [of f fmt])
  show ?case
  proof (cases "c < CHR ''0'' \<or> c > CHR ''9''")
    case True
    with "1.prems" c show ?thesis by (simp add: toNumber_loop.simps [of f fmt])
  next
    case False
    with "1.prems" c
    have "toNumber_loop f (fmt + 1) (n * 10 + of_char c - 48) True = Inr (h', fmt', n')"
      by (simp add: toNumber_loop.simps [of f fmt])
    from "1.IH" [OF c False this] show ?thesis by simp
  qed
qed

lemma handleFlags_cursor: "handleFlags f fmt flags = Inr (fmt', flags') \<Longrightarrow> fmt \<le> fmt'"
proof (induction f fmt flags rule: handleFlags.induct)
  case (1 f fmt flags)
  from "1.prems" obtain c where c: "getChar f fmt = Inr c"
    by (cases "getChar f fmt") (simp_all add: handleFlags.simps [of f fmt])
  show ?case
  proof (cases "flagOfChar c")
    case None
    with "1.prems" c show ?thesis by (simp add: handleFlags.simps [of f fmt])
  next
    case (Some flag)
    with "1.prems" c
    have "handleFlags f (fmt + 1) (setFlag flags flag) = Inr (fmt', flags')"
      by (simp add: handleFlags.simps [of f fmt])
    from "1.IH" [OF c Some this] show ?thesis by simp
  qed
qed

lemma handleWidth_cursor:
  "handleWidth f fmt = Inr (w, fmt', f') \<Longrightarrow> fmt \<le> fmt' \<and> fmt_s f' = fmt_s f"
  by (auto simp: handleWidth_def toNumber_def split: sum.splits if_splits
      dest: toNumber_loop_cursor fmt_s_getArg)

lemma handleLength_cursor: "handleLength f fmt = Inr (len, fmt') \<Longrightarrow> fmt \<le> fmt'"
  by (auto simp: handleLength_def split: sum.splits if_splits)

text \<open>The \<open>switch\<close>, one \<open>case\<close> at a time.\<close>

lemma switch_default:
  assumes "getChar f fmt = Inr c" "c \<notin> set ''diuoxXfFeEgGcbsp''"
  shows "doprintf_switch ts f fmt sz w p fl len = Inr (putChar c f, fmt + 1, sz + 1)"
  using assms by (simp add: doprintf_switch_def)

lemma switch_float:
  assumes "getChar f fmt = Inr c" "c \<in> set ''fFeEgG''"
  shows "doprintf_switch ts f fmt sz w p fl len =
     (case getArg flt f of
        Inl e \<Rightarrow> Inl e
      | Inr (v, f1) \<Rightarrow>
          Inr (putChars (takeWhile (\<lambda>b. b \<noteq> CHR 0x00)
                 (ts (ucast v) (word_of_int w) (word_of_int (if p < 0 then 6 else p)))) f1,
               fmt, sz))"
proof -
  from assms(2) consider "c = CHR ''f''" | "c = CHR ''F''" | "c = CHR ''e''" | "c = CHR ''E''"
    | "c = CHR ''g''" | "c = CHR ''G''" by auto
  then show ?thesis
    by cases (simp_all add: doprintf_switch_def assms(1))
qed


lemma switch_b:
  assumes "getChar f fmt = Inr (CHR ''b'')"
  shows "doprintf_switch ts f fmt sz w p fl len =
     (case getArg i8 f of
        Inl e \<Rightarrow> Inl e
      | Inr (v, f1) \<Rightarrow> Inr (putChars (if v \<noteq> 0 then ''true'' else ''false'') f1, fmt, sz))"
  using assms by (simp add: doprintf_switch_def)

lemma switch_c:
  assumes "getChar f fmt = Inr (CHR ''c'')"
  shows "doprintf_switch ts f fmt sz w p fl len =
     (case getArg i8 f of
        Inl e \<Rightarrow> Inl e
      | Inr (v, f1) \<Rightarrow> Inr (putChar (char_of (unat v)) f1, fmt, sz + 1))"
  using assms by (simp add: doprintf_switch_def)

lemma switch_s:
  assumes "getChar f fmt = Inr (CHR ''s'')"
  shows "doprintf_switch ts f fmt sz w p fl len =
     (case getArgStr f of
        Inl e \<Rightarrow> Inl e
      | Inr (s, f1) \<Rightarrow>
          (let (n, f2) = outString f1 s w p fl in Inr (f2, fmt, sz + n)))"
  using assms by (simp add: doprintf_switch_def)

lemma switch_p:
  assumes "getChar f fmt = Inr (CHR ''p'')"
  shows "doprintf_switch ts f fmt sz w p fl len =
     (case getArg ptr f of
        Inl e \<Rightarrow> Inl e
      | Inr (v, f1) \<Rightarrow>
          (let (n, f2) = outInteger f1 v SignedNo w p fl 16 CapitalNo
           in Inr (f2, fmt, sz + n)))"
  using assms by (simp add: doprintf_switch_def)

lemma switch_integer:
  assumes "getChar f fmt = Inr c" "c \<in> set ''diuoxX''"
  shows "doprintf_switch ts f fmt sz w p fl len =
     (case getInteger len f of
        Inl e \<Rightarrow> Inl e
      | Inr (v, f1) \<Rightarrow>
          (let (n, f2) = outInteger f1 (scast v)
                           (if c = CHR ''d'' \<or> c = CHR ''i'' then SignedYes else SignedNo) w p fl
                           (if c = CHR ''o'' then 8 else if c = CHR ''x'' \<or> c = CHR ''X'' then 16 else 10)
                           (if c = CHR ''X'' then CapitalYes else CapitalNo)
           in Inr (f2, fmt, sz + n)))"
  using assms by (auto simp: doprintf_switch_def)

lemma specifier_cases [case_names integer float chr bool string pointer other]:
  assumes "c \<in> set ''diuoxX'' \<Longrightarrow> P" "c \<in> set ''fFeEgG'' \<Longrightarrow> P" "c = CHR ''c'' \<Longrightarrow> P"
    "c = CHR ''b'' \<Longrightarrow> P" "c = CHR ''s'' \<Longrightarrow> P" "c = CHR ''p'' \<Longrightarrow> P"
    "c \<notin> set ''diuoxXfFeEgGcbsp'' \<Longrightarrow> P"
  shows P
  using assms by (cases "c \<in> set ''diuoxXfFeEgGcbsp''") (simp_all, blast)

lemma doprintf_switch_cursor:
  assumes "doprintf_switch ts f fmt sz width precision flags len = Inr (f', fmt', sz')"
  shows "fmt \<le> fmt' \<and> fmt_s f' = fmt_s f"
proof -
  from assms obtain c where c: "getChar f fmt = Inr c"
    by (cases "getChar f fmt") (simp_all add: doprintf_switch_def)
  show ?thesis
  proof (cases c rule: specifier_cases)
    case other
    from assms show ?thesis
      unfolding switch_default [OF c other] by auto
  next
    case integer
    from assms show ?thesis
      unfolding switch_integer [OF c integer]
      by (auto split: sum.splits prod.splits dest!: fmt_s_getInteger fmt_s_outInteger)
  next
    case float
    from assms show ?thesis
      unfolding switch_float [OF c float]
      by (auto split: sum.splits prod.splits dest: fmt_s_getArg)
  next
    case chr
    from assms show ?thesis
      unfolding switch_c [OF c [unfolded chr]]
      by (auto split: sum.splits prod.splits dest: fmt_s_getArg)
  next
    case bool
    from assms show ?thesis
      unfolding switch_b [OF c [unfolded bool]]
      by (auto split: sum.splits prod.splits dest: fmt_s_getArg)
  next
    case string
    from assms show ?thesis
      unfolding switch_s [OF c [unfolded string]]
      by (auto split: sum.splits prod.splits dest!: fmt_s_getArgStr fmt_s_outString)
  next
    case pointer
    from assms show ?thesis
      unfolding switch_p [OF c [unfolded pointer]]
      by (auto split: sum.splits prod.splits dest!: fmt_s_getArg fmt_s_outInteger)
  qed
qed

lemma doprintf_optional_cursor:
  assumes "doprintf_optional f fmt flags = Inr (flags', width, precision, len, fmt', f')"
  shows "fmt \<le> fmt' \<and> fmt_s f' = fmt_s f"
proof -
  from assms obtain fmt1 flags1 where 1: "handleFlags f fmt flags = Inr (fmt1, flags1)"
    by (cases "handleFlags f fmt flags") (auto simp: doprintf_optional_def)
  from assms 1 obtain w fmt2 f2 where 2: "handleWidth f fmt1 = Inr (w, fmt2, f2)"
    by (cases "handleWidth f fmt1") (auto simp: doprintf_optional_def)
  from assms 1 2 obtain c where 3: "getChar f2 fmt2 = Inr c"
    by (cases "getChar f2 fmt2") (auto simp: doprintf_optional_def)
  define r where "r = (if c = CHR ''.'' then handleWidth f2 (fmt2 + 1) else Inr (- 1, fmt2, f2))"
  from assms 1 2 3 obtain pr fmt3 f3 where 4: "r = Inr (pr, fmt3, f3)"
    unfolding r_def by (cases "if c = CHR ''.'' then handleWidth f2 (fmt2 + 1) else Inr (- 1, fmt2, f2)")
      (auto simp: doprintf_optional_def)
  from assms 1 2 3 4 obtain len4 fmt4 where 5: "handleLength f3 fmt3 = Inr (len4, fmt4)"
    unfolding r_def by (cases "handleLength f3 fmt3") (auto simp: doprintf_optional_def)
  from assms 1 2 3 4 5 have e: "fmt' = fmt4" "f' = f3"
    unfolding r_def by (auto simp: doprintf_optional_def)
  from 4 have "fmt2 \<le> fmt3 \<and> fmt_s f3 = fmt_s f2"
    unfolding r_def by (auto split: if_splits dest: handleWidth_cursor)
  with handleFlags_cursor [OF 1] handleWidth_cursor [OF 2] handleLength_cursor [OF 5] e
  show ?thesis by simp
qed

lemma doprintf_directive_cursor:
  assumes "doprintf_directive ts f fmt flags sz = Inr (f', fmt', flags', sz')"
  shows "fmt < fmt' \<and> fmt_s f' = fmt_s f"
proof -
  from assms obtain flags1 w pr len fmt1 f1
    where 1: "doprintf_optional f fmt flags = Inr (flags1, w, pr, len, fmt1, f1)"
    by (cases "doprintf_optional f fmt flags") (auto simp: doprintf_directive_def)
  from assms 1 obtain f2 fmt2 sz2
    where 2: "doprintf_switch ts f1 fmt1 sz w pr flags1 len = Inr (f2, fmt2, sz2)"
    by (cases "doprintf_switch ts f1 fmt1 sz w pr flags1 len") (auto simp: doprintf_directive_def)
  from assms 1 2 have "fmt' = fmt2 + 1" "f' = f2"
    by (auto simp: doprintf_directive_def)
  with doprintf_optional_cursor [OF 1] doprintf_switch_cursor [OF 2]
  show ?thesis by simp
qed

section \<open>The main loop\<close>

text \<open>
  The \<open>while\<close> loop of \<open>doprintf\<close>: \<open>size\<close> is an \<open>int32_t\<close> (its overflow is undefined
  in the source and not modelled). \<open>flags\<close> is declared before the loop, so each directive
  starts from the flags the one before it left. The result is the returned \<open>size\<close> and the
  sink after \<open>end()\<close>.
\<close>

function doprintf_loop ::
  "toString \<Rightarrow> FormatterArgs \<Rightarrow> nat \<Rightarrow> 8 word \<Rightarrow> int \<Rightarrow> error + (int \<times> FormatterArgs)" where
  "doprintf_loop ts f fmt flags sz =
     (case getChar f fmt of
        Inl e \<Rightarrow> Inl e
      | Inr c \<Rightarrow>
          (if c = CHR 0x00 then Inr (sz, sink_end f)
           else if c \<noteq> CHR ''%'' then doprintf_loop ts (putChar c f) (fmt + 1) flags (sz + 1)
           else
             (case doprintf_directive ts f (fmt + 1) flags sz of
                Inl e \<Rightarrow> Inl e
              | Inr (f', fmt', flags', sz') \<Rightarrow> doprintf_loop ts f' fmt' flags' sz')))"
  by pat_completeness auto
termination
proof (relation "measure (\<lambda>(ts, f, fmt, flags, sz). length (fmt_s f) + 1 - fmt)", goal_cases)
  case 1
  show ?case by simp
next
  case (2 ts f fmt flags sz c)
  then have "fmt < length (fmt_s f)"
    by (auto simp: getChar_def split: if_splits)
  then show ?case by simp
next
  case (3 ts f fmt flags sz c r f' y fmt' z flags' sz')
  then have "fmt < length (fmt_s f)"
    by (auto simp: getChar_def split: if_splits)
  moreover from 3 have "doprintf_directive ts f (fmt + 1) flags sz = Inr (f', fmt', flags', sz')"
    by simp
  from doprintf_directive_cursor [OF this] have "fmt + 1 < fmt'" "fmt_s f' = fmt_s f"
    by simp_all
  ultimately show ?case by simp
qed

declare doprintf_loop.simps [simp del]

definition doprintf :: "toString \<Rightarrow> FormatterArgs \<Rightarrow> error + (int \<times> FormatterArgs)" where
  "doprintf ts f = doprintf_loop ts f 0 0 0"

text \<open>
  The two entry points. \<open>vformat\<close> gets the destination \<open>s\<close> as the bytes it holds before
  the call; the caller provides at least \<open>n\<close> of them.
\<close>

definition vprintf :: "toString \<Rightarrow> string \<Rightarrow> va_arg list \<Rightarrow> error + (int \<times> FormatterArgs)" where
  "vprintf ts fmt args = doprintf ts \<lparr>fmt_s = fmt, va_args = args, sink = Device []\<rparr>"

definition vformat ::
  "toString \<Rightarrow> string \<Rightarrow> 16 word \<Rightarrow> string \<Rightarrow> va_arg list \<Rightarrow> error + (int \<times> FormatterArgs)" where
  "vformat ts s n fmt args = doprintf ts \<lparr>fmt_s = fmt, va_args = args, sink = Buffer s n 0\<rparr>"

section \<open>Facts shared by the properties below\<close>

lemma unat_ucast_32_64: "unat (ucast (w :: 32 word) :: 64 word) = unat w"
  by (simp add: unsigned_ucast_eq take_bit_nat_eq_self_iff)
     (rule less_trans [OF unsigned_less], simp)

lemma ucast_32_64_eq_0: "(ucast (w :: 32 word) :: 64 word) = 0 \<longleftrightarrow> w = 0"
  using unat_ucast_32_64 [of w] by (simp add: unat_eq_0 [symmetric] del: unat_eq_0)

lemma ucast_32_64_32: "(ucast (ucast (w :: 32 word) :: 64 word) :: 32 word) = w"
  by (simp add: word_unat_eq_iff unsigned_ucast_eq take_bit_word_eq_self)

lemma getArg_VaInt:
  assumes "va_args f = VaInt w # rest" "t \<noteq> flt" "t \<noteq> str"
  shows "getArg t f = Inr (ucast w, f\<lparr>va_args := rest\<rparr>)"
  using assms by (simp add: getArg_def)

lemma getArg_VaDouble:
  assumes "va_args f = VaDouble bits # rest"
  shows "getArg flt f = Inr (ucast bits, f\<lparr>va_args := rest\<rparr>)"
  using assms by (simp add: getArg_def)

lemma doprintf_loop_percent:
  assumes "getChar f fmt = Inr (CHR ''%'')"
  shows "doprintf_loop ts f fmt flags sz =
     (case doprintf_directive ts f (fmt + 1) flags sz of
        Inl e \<Rightarrow> Inl e
      | Inr (f', fmt', flags', sz') \<Rightarrow> doprintf_loop ts f' fmt' flags' sz')"
  using assms by (simp add: doprintf_loop.simps [of ts f fmt])

lemma va_args_putChar [simp]: "va_args (putChar c f) = va_args f"
  by (simp add: putChar_def split: sink.splits)

lemma doprintf_loop_directive:
  assumes "getChar f fmt = Inr (CHR ''%'')"
    and "doprintf_optional f (fmt + 1) flags = Inr (flags1, width, precision, len, fmt1, f1)"
    and "doprintf_switch ts f1 fmt1 sz width precision flags1 len = Inr (f2, fmt2, sz2)"
  shows "doprintf_directive ts f (fmt + 1) flags sz = Inr (f2, fmt2 + 1, flags1, sz2)"
    and "doprintf_loop ts f fmt flags sz = doprintf_loop ts f2 (fmt2 + 1) flags1 sz2"
proof -
  show d: "doprintf_directive ts f (fmt + 1) flags sz = Inr (f2, fmt2 + 1, flags1, sz2)"
    unfolding doprintf_directive_def assms(2) using assms(3) by simp
  show "doprintf_loop ts f fmt flags sz = doprintf_loop ts f2 (fmt2 + 1) flags1 sz2"
    unfolding doprintf_loop_percent [OF assms(1)] d by simp
qed

lemma toNumber_no_digit:
  assumes "getChar f fmt = Inr c" "c < CHR ''0'' \<or> c > CHR ''9''"
  shows "toNumber f fmt = Inr (False, fmt, 0)"
  using assms by (simp add: toNumber_def toNumber_loop.simps [of f fmt])

lemma handleWidth_no_number:
  assumes "getChar f fmt = Inr c" "c \<noteq> CHR ''*''" "c < CHR ''0'' \<or> c > CHR ''9''"
  shows "handleWidth f fmt = Inr (- 1, fmt, f)"
  using assms by (simp add: handleWidth_def toNumber_no_digit)

lemma handleFlags_no_flag:
  assumes "getChar f fmt = Inr c" "flagOfChar c = None"
  shows "handleFlags f fmt flags = Inr (fmt, flags)"
  using assms by (simp add: handleFlags.simps [of f fmt])

lemma handleLength_j_z_t:
  assumes "getChar f fmt = Inr c" "c \<in> set ''jzt''"
  shows "handleLength f fmt = Inr (if c = CHR ''j'' then J else if c = CHR ''z'' then Z else T, fmt)"
  using assms by (auto simp: handleLength_def)

lemma handleLength_h_l:
  assumes "getChar f fmt = Inr c" "c \<in> set ''hl''" "getChar f (fmt + 1) = Inr c'"
  shows "handleLength f fmt =
     (if c' = c then Inr (if c = CHR ''h'' then HH else LL, fmt + 2)
      else Inr (if c = CHR ''h'' then H else L, fmt + 1))"
  using assms by (auto simp: handleLength_def)

lemma handleLength_no_match:
  assumes "getChar f fmt = Inr c" "c \<notin> set ''hljzt''"
  shows "handleLength f fmt = Inr (LNone, fmt)"
  using assms by (simp add: handleLength_def)

lemma doprintf_optional_at_terminator:
  assumes "fmt = length (fmt_s f)"
  shows "doprintf_optional f fmt flags = Inr (flags, - 1, - 1, LNone, fmt, f)"
proof -
  have c: "getChar f fmt = Inr (CHR 0x00)"
    using assms by (simp add: getChar_def)
  have 1: "handleFlags f fmt flags = Inr (fmt, flags)"
    by (rule handleFlags_no_flag [OF c]) (simp add: flagOfChar_def)
  have 2: "handleWidth f fmt = Inr (- 1, fmt, f)"
    by (rule handleWidth_no_number [OF c]) simp_all
  have 3: "handleLength f fmt = Inr (LNone, fmt)"
    by (rule handleLength_no_match [OF c]) simp
  show ?thesis
    unfolding doprintf_optional_def 1 using 2 3 c by simp
qed

lemma sink_end_full:
  assumes "sink f = Buffer buf n idx" "\<not> uint idx < uint n - 1"
  shows "sink_end f = f"
  using assms by (simp add: sink_end_def putChar_def)

lemma putChars_Nil [simp]: "putChars [] f = f"
  by (simp add: putChars_def)

lemma putChars_Cons [simp]: "putChars (c # cs) f = putChars cs (putChar c f)"
  by (simp add: putChars_def)

lemma putChars_Device:
  assumes "sink f = Device out"
  shows "putChars cs f = f\<lparr>sink := Device (out @ cs)\<rparr>"
  using assms
proof (induction cs arbitrary: f out)
  case Nil
  then show ?case by (simp add: putChars_def)
next
  case (Cons c cs)
  have "sink (putChar c f) = Device (out @ [c])"
    using Cons.prems by (simp add: putChar_def)
  from Cons.IH [OF this] Cons.prems show ?case
    by (simp add: putChars_def putChar_def)
qed

section \<open>The buffer sink\<close>

text \<open>
  Literal text into the buffer, in general: for a format string \<open>cs\<close> without \<open>%\<close>, a
  capacity \<open>n \<ge> 1\<close> and at least \<open>n - 1\<close> characters of output, the call returns the
  length of \<open>cs\<close> and leaves the first \<open>n - 1\<close> characters of \<open>cs\<close> in the buffer, followed
  by what the buffer held before: its byte \<open>n - 1\<close> is never written.
\<close>

lemma buffer_room_iff:
  "uint (idx :: 16 word) < uint (n :: 16 word) - 1 \<longleftrightarrow> unat idx + 1 < unat n"
  unfolding uint_nat by linarith

lemma literal_loop:
  assumes "\<forall>c \<in> set cs. c \<noteq> CHR 0x00 \<and> c \<noteq> CHR ''%''" "fmt_s f = pre @ cs" "fmt = length pre"
  shows "doprintf_loop ts f fmt flags sz = Inr (sz + int (length cs), sink_end (putChars cs f))"
  using assms
proof (induction cs arbitrary: f pre fmt sz)
  case Nil
  then have "getChar f fmt = Inr (CHR 0x00)"
    by (simp add: getChar_def)
  then show ?case
    by (simp add: doprintf_loop.simps [of ts f fmt])
next
  case (Cons c cs)
  have c: "getChar f fmt = Inr c"
    using Cons.prems(2,3) by (simp add: getChar_def)
  from Cons.prems(1) have "c \<noteq> CHR 0x00" "c \<noteq> CHR ''%''"
    by simp_all
  with c have "doprintf_loop ts f fmt flags sz = doprintf_loop ts (putChar c f) (fmt + 1) flags (sz + 1)"
    by (simp add: doprintf_loop.simps [of ts f fmt])
  also have "\<dots> = Inr (sz + 1 + int (length cs), sink_end (putChars cs (putChar c f)))"
    using Cons.prems by (intro Cons.IH [of _ "pre @ [c]"]) simp_all
  finally show ?case by simp
qed

lemma putChars_Buffer:
  assumes "sink f = Buffer buf n idx" "unat idx + 1 \<le> unat n" "unat n \<le> length buf"
  shows "putChars cs f =
     f\<lparr>sink := Buffer (take (unat idx) buf @ take (unat n - 1 - unat idx) cs
                        @ drop (unat idx + min (length cs) (unat n - 1 - unat idx)) buf)
                     n (idx + of_nat (min (length cs) (unat n - 1 - unat idx)))\<rparr>"
  using assms
proof (induction cs arbitrary: f buf idx)
  case Nil
  then show ?case by simp
next
  case (Cons c cs)
  show ?case
  proof (cases "unat idx + 1 < unat n")
    case True
    let ?f = "f\<lparr>sink := Buffer (buf[unat idx := c]) n (idx + 1)\<rparr>"
    have p: "putChar c f = ?f"
      using Cons.prems(1) True by (simp add: putChar_def buffer_room_iff)
    have "unat n < 2 ^ 16" using unsigned_less [of n] by simp
    with True have u: "unat (idx + 1) = unat idx + 1"
      by (simp add: unat_word_ariths)
    have "putChars cs ?f =
      ?f\<lparr>sink := Buffer (take (unat (idx + 1)) (buf[unat idx := c]) @ take (unat n - 1 - unat (idx + 1)) cs
                        @ drop (unat (idx + 1) + min (length cs) (unat n - 1 - unat (idx + 1))) (buf[unat idx := c]))
                     n (idx + 1 + of_nat (min (length cs) (unat n - 1 - unat (idx + 1))))\<rparr>"
      using True Cons.prems(3) by (intro Cons.IH) (simp_all add: u)
    moreover have "take (unat idx + 1) (buf[unat idx := c]) = take (unat idx) buf @ [c]"
      using True Cons.prems(3) by (simp add: take_Suc_conv_app_nth)
    moreover have "min (length (c # cs)) (unat n - 1 - unat idx) =
        Suc (min (length cs) (unat n - 1 - (unat idx + 1)))"
      using True by simp
    moreover have "take (unat n - 1 - unat idx) (c # cs) = c # take (unat n - 1 - (unat idx + 1)) cs"
      using True by (simp add: take_Cons')
    ultimately show ?thesis
      by (simp add: p u)
  next
    case False
    with Cons.prems(2) have e: "unat n - Suc (unat idx) = 0" by simp
    have p: "putChar c f = f"
      using Cons.prems(1) False by (simp add: putChar_def buffer_room_iff)
    from Cons.IH [OF Cons.prems] show ?thesis
      by (simp add: p e)
  qed
qed

lemma format_literal_truncated:
  assumes "\<forall>c \<in> set cs. c \<noteq> CHR 0x00 \<and> c \<noteq> CHR ''%''"
    and "1 \<le> unat n" and "unat n \<le> length s" and "unat n - 1 \<le> length cs"
  shows "vformat ts s n cs args =
     Inr (int (length cs),
          \<lparr>fmt_s = cs, va_args = args,
             sink = Buffer (take (unat n - 1) cs @ drop (unat n - 1) s) n (n - 1)\<rparr>)"
proof -
  let ?f = "\<lparr>fmt_s = cs, va_args = args, sink = Buffer s n 0\<rparr>"
  let ?g = "\<lparr>fmt_s = cs, va_args = args,
             sink = Buffer (take (unat n - 1) cs @ drop (unat n - 1) s) n (n - 1)\<rparr>"
  have k: "min (length cs) (unat n - 1) = unat n - 1"
    using assms(4) by simp
  have "(of_nat (unat n - 1) :: 16 word) = n - 1"
    using assms(2) by (simp add: of_nat_diff)
  then have p: "putChars cs ?f = ?g"
    using putChars_Buffer [of ?f s n 0 cs] assms(2,3) k by simp
  have "unat (n - 1) = unat n - 1"
    using assms(2) by (simp add: unat_sub word_le_nat_alt)
  then have "\<not> uint (n - 1) < uint n - 1"
    by (simp add: buffer_room_iff)
  then have e: "sink_end ?g = ?g"
    by (intro sink_end_full [of _ "take (unat n - 1) cs @ drop (unat n - 1) s" n "n - 1"]) simp_all
  show ?thesis
    unfolding vformat_def doprintf_def
    using literal_loop [OF assms(1), of ?f "[]" 0 ts 0 0] p e by simp
qed

text \<open>
  C1. For the format-into-buffer entry point with capacity \<open>n \<ge> 1\<close> and an output of
  \<open>m \<ge> n\<close> characters, the claim is that the first \<open>n - 1\<close> characters are stored, that a
  terminator is written inside the capacity on finalize, and that the count returned is
  \<open>m\<close>. Here the code is run on the claim's own example, ten bytes of output into a buffer
  of five that holds \<open>ZZZZZ\<close> before the call: the four characters are stored and the count
  is 10, but \<open>end()\<close> goes through the same guard \<open>_index < _size - 1\<close> as every other
  byte, so the terminator is dropped and the last byte of the buffer is still \<open>Z\<close>.
\<close>

theorem format_truncated_has_no_terminator:
  "vformat (\<lambda>bits w p. []) ''ZZZZZ'' 5 ''0123456789'' [] =
     Inr (10, \<lparr>fmt_s = ''0123456789'', va_args = [], sink = Buffer ''0123Z'' 5 4\<rparr>)"
  by code_simp

section \<open>The flags of a directive\<close>

text \<open>
  A flag that is set when a directive starts is still set when it ends, whatever the
  directive is: what \<open>doprintf_directive\<close> hands to the next turn of the loop contains
  every flag it was given.
\<close>

lemma isFlag_setFlag:
  assumes "isFlag flags fl"
  shows "isFlag (setFlag flags flag) fl"
  using assms by (simp add: isFlag_def setFlag_def bit.conj_disj_distrib2 or_eq_0_iff)

lemma handleFlags_keeps_flags:
  assumes "handleFlags f fmt flags = Inr (fmt', flags')" "isFlag flags fl"
  shows "isFlag flags' fl"
  using assms
proof (induction f fmt flags rule: handleFlags.induct)
  case (1 f fmt flags)
  from "1.prems"(1) obtain c where c: "getChar f fmt = Inr c"
    by (cases "getChar f fmt") (simp_all add: handleFlags.simps [of f fmt])
  show ?case
  proof (cases "flagOfChar c")
    case None
    with "1.prems" c show ?thesis by (simp add: handleFlags.simps [of f fmt])
  next
    case (Some flag)
    with "1.prems"(1) c
    have "handleFlags f (fmt + 1) (setFlag flags flag) = Inr (fmt', flags')"
      by (simp add: handleFlags.simps [of f fmt])
    from "1.IH" [OF c Some this isFlag_setFlag [OF "1.prems"(2)]] show ?thesis .
  qed
qed

lemma doprintf_directive_keeps_flags:
  assumes "doprintf_directive ts f fmt flags sz = Inr (f', fmt', flags', sz')" "isFlag flags fl"
  shows "isFlag flags' fl"
proof -
  from assms(1) obtain w pr len fmt1 f1
    where 1: "doprintf_optional f fmt flags = Inr (flags', w, pr, len, fmt1, f1)"
    by (cases "doprintf_optional f fmt flags")
       (auto simp: doprintf_directive_def split: sum.splits)
  then obtain fmt0 where "handleFlags f fmt flags = Inr (fmt0, flags')"
    by (cases "handleFlags f fmt flags")
       (auto simp: doprintf_optional_def split: sum.splits if_splits)
  from handleFlags_keeps_flags [OF this assms(2)] show ?thesis .
qed

text \<open>
  C2. The claim is that the flags parsed for one directive have no effect on a later
  directive of the same call. Here the code is run on \<open>%#x %x\<close> with 255 and 255: the
  second directive has no \<open>#\<close>, and is rendered with the \<open>0x\<close> prefix all the same, because
  \<open>flags\<close> is declared once before the loop and \<open>handleFlags\<close> only ever sets bits.
\<close>

theorem flags_leak_into_next_directive:
  "vprintf (\<lambda>bits w p. []) ''%#x %x'' [VaInt 255, VaInt 255] =
     Inr (47, \<lparr>fmt_s = ''%#x %x'', va_args = [], sink = Device ''0xff 0xff''\<rparr>)"
  by code_simp

section \<open>The precision\<close>

text \<open>
  C3, as claimed: a \<open>.\<close> followed by neither digits nor \<open>*\<close> gives the precision 0. It
  does not: for \<open>%.f\<close> the optional part yields the precision \<open>-1\<close>.
\<close>

theorem precision_dot_alone_counterexample:
  "doprintf_optional \<lparr>fmt_s = ''%.f'', va_args = [], sink = Device []\<rparr> 1 0 =
     Inr (0, - 1, - 1, LNone, 2, \<lparr>fmt_s = ''%.f'', va_args = [], sink = Device []\<rparr>)
   \<and> doprintf_optional \<lparr>fmt_s = ''%.f'', va_args = [], sink = Device []\<rparr> 1 0 \<noteq>
     Inr (0, - 1, 0, LNone, 2, \<lparr>fmt_s = ''%.f'', va_args = [], sink = Device []\<rparr>)"
  by code_simp

text \<open>
  C3, amended: in every directive in which a \<open>.\<close> is followed by a character that is
  neither a digit nor \<open>*\<close>, the precision is \<open>-1\<close>, the same value as with no \<open>.\<close> at all:
  \<open>handleWidth\<close> returns \<open>-1\<close> and leaves the cursor on that character (the accumulator's
  0 is dropped because \<open>toNumber\<close> returned false), and \<open>-1\<close> is what the optional part
  hands to the \<open>switch\<close>. What the conversion routines are then called with, \<open>s\<close> being
  the specifier character the \<open>switch\<close> reads: \<open>toString\<close> gets the precision 6 for
  \<open>f F e E g G\<close> (the float case replaces a negative precision by 6); \<open>outInteger\<close>
  gets \<open>-1\<close> for \<open>d i u o x X p\<close> and \<open>outString\<close> gets \<open>-1\<close> for \<open>s\<close>. None of them
  gets 0.
\<close>

theorem precision_dot_alone:
  assumes "handleFlags f fmt flags = Inr (fmt1, flags1)"
    and "handleWidth f fmt1 = Inr (width, fmt2, f2)"
    and "getChar f2 fmt2 = Inr (CHR ''.'')"
    and "getChar f2 (fmt2 + 1) = Inr c"
    and "c \<noteq> CHR ''*''" and "c < CHR ''0'' \<or> c > CHR ''9''"
    and "handleLength f2 (fmt2 + 1) = Inr (len, fmt4)"
    and "getChar f2 fmt4 = Inr s"
  shows "handleWidth f2 (fmt2 + 1) = Inr (- 1, fmt2 + 1, f2)
    \<and> doprintf_optional f fmt flags = Inr (flags1, width, - 1, len, fmt4, f2)
    \<and> doprintf_directive ts f fmt flags sz =
        (case doprintf_switch ts f2 fmt4 sz width (- 1) flags1 len of
           Inl e \<Rightarrow> Inl e
         | Inr (f3, fmt5, sz3) \<Rightarrow> Inr (f3, fmt5 + 1, flags1, sz3))
    \<and> (s \<in> set ''fFeEgG'' \<longrightarrow>
         doprintf_switch ts f2 fmt4 sz width (- 1) flags1 len =
           (case getArg flt f2 of
              Inl e \<Rightarrow> Inl e
            | Inr (v, f3) \<Rightarrow>
                Inr (putChars
                       (takeWhile (\<lambda>b. b \<noteq> CHR 0x00) (ts (ucast v) (word_of_int width) 6))
                       f3, fmt4, sz)))
    \<and> (s \<in> set ''diuoxX'' \<longrightarrow>
         doprintf_switch ts f2 fmt4 sz width (- 1) flags1 len =
           (case getInteger len f2 of
              Inl e \<Rightarrow> Inl e
            | Inr (v, f3) \<Rightarrow>
                (let (n, f4) = outInteger f3 (scast v)
                                 (if s = CHR ''d'' \<or> s = CHR ''i'' then SignedYes else SignedNo)
                                 width (- 1) flags1
                                 (if s = CHR ''o'' then 8
                                  else if s = CHR ''x'' \<or> s = CHR ''X'' then 16 else 10)
                                 (if s = CHR ''X'' then CapitalYes else CapitalNo)
                 in Inr (f4, fmt4, sz + n))))
    \<and> (s = CHR ''s'' \<longrightarrow>
         doprintf_switch ts f2 fmt4 sz width (- 1) flags1 len =
           (case getArgStr f2 of
              Inl e \<Rightarrow> Inl e
            | Inr (p, f3) \<Rightarrow>
                (let (n, f4) = outString f3 p width (- 1) flags1 in Inr (f4, fmt4, sz + n))))
    \<and> (s = CHR ''p'' \<longrightarrow>
         doprintf_switch ts f2 fmt4 sz width (- 1) flags1 len =
           (case getArg ptr f2 of
              Inl e \<Rightarrow> Inl e
            | Inr (v, f3) \<Rightarrow>
                (let (n, f4) = outInteger f3 v SignedNo width (- 1) flags1 16 CapitalNo
                 in Inr (f4, fmt4, sz + n))))"
proof -
  have p: "handleWidth f2 (fmt2 + 1) = Inr (- 1, fmt2 + 1, f2)"
    by (rule handleWidth_no_number [OF assms(4,5,6)])
  have o: "doprintf_optional f fmt flags = Inr (flags1, width, - 1, len, fmt4, f2)"
    unfolding doprintf_optional_def assms(1) using assms(2,3,7) p by simp
  have d: "doprintf_directive ts f fmt flags sz =
        (case doprintf_switch ts f2 fmt4 sz width (- 1) flags1 len of
           Inl e \<Rightarrow> Inl e
         | Inr (f3, fmt5, sz3) \<Rightarrow> Inr (f3, fmt5 + 1, flags1, sz3))"
    unfolding doprintf_directive_def o by simp
  have fl: "s \<in> set ''fFeEgG'' \<longrightarrow>
         doprintf_switch ts f2 fmt4 sz width (- 1) flags1 len =
           (case getArg flt f2 of
              Inl e \<Rightarrow> Inl e
            | Inr (v, f3) \<Rightarrow>
                Inr (putChars
                       (takeWhile (\<lambda>b. b \<noteq> CHR 0x00) (ts (ucast v) (word_of_int width) 6))
                       f3, fmt4, sz))"
  proof
    assume "s \<in> set ''fFeEgG''"
    have w: "(word_of_int (if (- 1 :: int) < 0 then 6 else - 1) :: 8 word) = 6"
      by simp
    from switch_float [OF assms(8) \<open>s \<in> set ''fFeEgG''\<close>, of ts sz width "- 1" flags1 len] show
      "doprintf_switch ts f2 fmt4 sz width (- 1) flags1 len =
           (case getArg flt f2 of
              Inl e \<Rightarrow> Inl e
            | Inr (v, f3) \<Rightarrow>
                Inr (putChars
                       (takeWhile (\<lambda>b. b \<noteq> CHR 0x00) (ts (ucast v) (word_of_int width) 6))
                       f3, fmt4, sz))"
      unfolding w .
  qed
  have it: "s \<in> set ''diuoxX'' \<longrightarrow>
         doprintf_switch ts f2 fmt4 sz width (- 1) flags1 len =
           (case getInteger len f2 of
              Inl e \<Rightarrow> Inl e
            | Inr (v, f3) \<Rightarrow>
                (let (n, f4) = outInteger f3 (scast v)
                                 (if s = CHR ''d'' \<or> s = CHR ''i'' then SignedYes else SignedNo)
                                 width (- 1) flags1
                                 (if s = CHR ''o'' then 8
                                  else if s = CHR ''x'' \<or> s = CHR ''X'' then 16 else 10)
                                 (if s = CHR ''X'' then CapitalYes else CapitalNo)
                 in Inr (f4, fmt4, sz + n)))"
    using switch_integer [OF assms(8), of ts sz width "- 1" flags1 len] by blast
  have st: "s = CHR ''s'' \<longrightarrow>
         doprintf_switch ts f2 fmt4 sz width (- 1) flags1 len =
           (case getArgStr f2 of
              Inl e \<Rightarrow> Inl e
            | Inr (p, f3) \<Rightarrow>
                (let (n, f4) = outString f3 p width (- 1) flags1 in Inr (f4, fmt4, sz + n)))"
    using switch_s [of f2 fmt4 ts sz width "- 1" flags1 len] assms(8) by blast
  have pt: "s = CHR ''p'' \<longrightarrow>
         doprintf_switch ts f2 fmt4 sz width (- 1) flags1 len =
           (case getArg ptr f2 of
              Inl e \<Rightarrow> Inl e
            | Inr (v, f3) \<Rightarrow>
                (let (n, f4) = outInteger f3 v SignedNo width (- 1) flags1 16 CapitalNo
                 in Inr (f4, fmt4, sz + n)))"
    using switch_p [of f2 fmt4 ts sz width "- 1" flags1 len] assms(8) by blast
  from p o d fl it st pt show ?thesis
    by (intro conjI)
qed

theorem precision_dot_alone_witness:
  "vprintf (\<lambda>bits w p. if p = 6 then ''six'' else if p = 0 then ''zero'' else ''other'')
       ''%.f'' [VaDouble 0x3FC00000] =
     Inr (0, \<lparr>fmt_s = ''%.f'', va_args = [], sink = Device ''six''\<rparr>)"
proof -
  let ?ts = "\<lambda>(bits :: 32 word) (w :: 8 word) (p :: 8 word).
      if p = 6 then ''six'' else if p = 0 then ''zero'' else ''other''"
  let ?f = "\<lparr>fmt_s = ''%.f'', va_args = [VaDouble 0x3FC00000], sink = Device []\<rparr>"
  let ?g = "\<lparr>fmt_s = ''%.f'', va_args = [], sink = Device ''six''\<rparr>"
  have 0: "getChar ?f 0 = Inr (CHR ''%'')"
    by code_simp
  have 1: "handleFlags ?f (0 + 1) 0 = Inr (1, 0)"
    by code_simp
  have 2: "handleWidth ?f 1 = Inr (- 1, 1, ?f)"
    by code_simp
  have 3: "getChar ?f 1 = Inr (CHR ''.'')"
    by code_simp
  have 4: "getChar ?f (1 + 1) = Inr (CHR ''f'')"
    by code_simp
  have 5: "CHR ''f'' \<noteq> CHR ''*''" and 6: "CHR ''f'' < CHR ''0'' \<or> CHR ''f'' > CHR ''9''"
    by simp_all
  have 7: "handleLength ?f (1 + 1) = Inr (LNone, 2)"
    by code_simp
  have 8: "getChar ?f 2 = Inr (CHR ''f'')"
    by code_simp
  have g: "getArg flt ?f = Inr (0x3FC00000, ?f\<lparr>va_args := []\<rparr>)"
    by code_simp
  have e: "doprintf_loop ?ts ?g (2 + 1) 0 0 = Inr (0, ?g)"
    by code_simp
  note t = precision_dot_alone [OF 1 2 3 4 5 6 7 8, of ?ts 0]
  from t have sw: "doprintf_switch ?ts ?f 2 0 (- 1) (- 1) 0 LNone = Inr (?g, 2, 0)"
    by (simp add: g putChar_def)
  from t have "doprintf_directive ?ts ?f (0 + 1) 0 0 = Inr (?g, 2 + 1, 0, 0)"
    unfolding sw by simp
  then show ?thesis
    unfolding vprintf_def doprintf_def doprintf_loop_percent [OF 0] using e by simp
qed

section \<open>The length modifier\<close>

text \<open>
  C4. The claim is that each of \<open>h\<close>, \<open>hh\<close>, \<open>l\<close>, \<open>ll\<close>, \<open>j\<close>, \<open>z\<close>, \<open>t\<close> is consumed, so
  that the \<open>switch\<close> sees the character behind it. Here the code is run on \<open>%jd\<close> with the
  argument 5: \<open>handleLength\<close> returns \<open>J\<close> with the cursor still on \<open>j\<close> (the branches for
  \<open>j\<close>, \<open>z\<close> and \<open>t\<close> have no \<open>++fmt\<close>, those for \<open>h\<close> and \<open>l\<close> do), the \<open>switch\<close> echoes
  \<open>j\<close> through its default case, \<open>d\<close> is skipped and the argument is never fetched.
\<close>

theorem length_j_is_not_consumed:
  "handleLength \<lparr>fmt_s = ''%jd'', va_args = [VaInt 5], sink = Device []\<rparr> 1 = Inr (J, 1)
   \<and> vprintf (\<lambda>bits w p. []) ''%jd'' [VaInt 5] =
       Inr (1, \<lparr>fmt_s = ''%jd'', va_args = [VaInt 5], sink = Device ''j''\<rparr>)"
  by code_simp

section \<open>Hexadecimal output\<close>

text \<open>
  The renderer itself reads back: the digits \<open>intToString\<close> produces in base 16 for any
  64-bit value are that value. What \<open>%x\<close> (no flags, no width) hands to the renderer is
  the sign extension of its 32-bit argument, so the digits of a whole call read back as
  \<open>scast v\<close>, which is \<open>v\<close> exactly when \<open>v\<close> is below \<open>2 ^ 31\<close>.
\<close>

lemma sint_32_low:
  assumes "(v :: 32 word) < 0x80000000"
  shows "sint v = uint v"
proof -
  have a: "- (2 ^ 31) \<le> uint v"
    by (rule order_trans [OF _ uint_nonnegative]) simp
  have b: "uint v < 2 ^ 31"
    using assms by (simp add: word_less_alt)
  from signed_take_bit_int_eq_self [OF a b] show ?thesis
    by (simp add: sint_uint)
qed

lemma scast_32_64_low:
  assumes "(v :: 32 word) < 0x80000000"
  shows "(scast v :: 64 word) = ucast v"
  by (simp only: scast_eq ucast_eq sint_32_low [OF assms])

lemma hexDigitValue_digitChar_all:
  "list_all (\<lambda>d. hexDigitValue (digitChar d (CHR ''a'')) = d \<and> hexDigitValue (digitChar d (CHR ''A'')) = d) [0..<16]"
  by code_simp

lemma hexDigitValue_digitChar:
  assumes "d < 16" "hexBase = CHR ''a'' \<or> hexBase = CHR ''A''"
  shows "hexDigitValue (digitChar d hexBase) = d"
proof -
  from assms(1) have "d \<in> set [0..<16]" by simp
  with hexDigitValue_digitChar_all assms(2) show ?thesis
    unfolding list_all_iff by blast
qed

lemma parseHex_snoc: "parseHex (xs @ [c]) = 16 * parseHex xs + hexDigitValue c"
  by (simp add: parseHex_def)

lemma intToString_loop_step:
  assumes "v \<noteq> 0" "2 \<le> base"
  shows "intToString_loop v base hexBase acc =
     intToString_loop (v div ucast base) base hexBase
       (digitChar (unat (v mod ucast base)) hexBase # acc)"
  using assms
  by (simp add: intToString_loop.simps [of v base hexBase acc] Let_def not_less [symmetric])

lemma unat_div_base_less:
  assumes "v \<noteq> 0" "2 \<le> (base :: 8 word)"
  shows "unat (v div ucast base :: 64 word) < unat v"
proof -
  from assms have "0 < unat v" "2 \<le> unat base"
    by (simp_all add: unat_gt_0 word_le_nat_alt)
  then show ?thesis
    by (simp add: unat_div unat_ucast_base)
qed

lemma intToString_loop_acc:
  "intToString_loop v base hexBase acc = intToString_loop v base hexBase [] @ acc"
proof (induction "unat v" arbitrary: v acc rule: less_induct)
  case less
  show ?case
  proof (cases "v = 0 \<or> base < 2")
    case True
    then show ?thesis by (simp add: intToString_loop.simps [of v base])
  next
    case False
    then have v: "v \<noteq> 0" and b: "2 \<le> base" by (simp_all add: not_less)
    let ?ch = "digitChar (unat (v mod ucast base)) hexBase"
    have "intToString_loop v base hexBase acc =
        intToString_loop (v div ucast base) base hexBase [] @ ?ch # acc"
      unfolding intToString_loop_step [OF v b, of hexBase acc]
      by (rule less.hyps [OF unat_div_base_less [OF v b]])
    moreover have "intToString_loop v base hexBase [] =
        intToString_loop (v div ucast base) base hexBase [] @ [?ch]"
      unfolding intToString_loop_step [OF v b, of hexBase "[]"]
      by (rule less.hyps [OF unat_div_base_less [OF v b]])
    ultimately show ?thesis by simp
  qed
qed

lemma parseHex_intToString_loop:
  assumes "hexBase = CHR ''a'' \<or> hexBase = CHR ''A''"
  shows "parseHex (intToString_loop v 16 hexBase []) = unat v"
proof (induction "unat v" arbitrary: v rule: less_induct)
  case less
  show ?case
  proof (cases "v = 0")
    case True
    then show ?thesis by (simp add: intToString_loop.simps [of 0] parseHex_def)
  next
    case False
    have b: "(2 :: 8 word) \<le> 16" by simp
    have step: "intToString_loop v 16 hexBase [] =
        intToString_loop (v div 16) 16 hexBase [digitChar (unat (v mod 16)) hexBase]"
      using intToString_loop_step [OF False b, of hexBase "[]"] by simp
    have lt: "unat (v div 16) < unat v"
      using unat_div_base_less [OF False b] by simp
    have d: "unat (v mod 16) < 16"
      by (simp add: unat_mod)
    have "parseHex (intToString_loop v 16 hexBase []) =
        16 * parseHex (intToString_loop (v div 16) 16 hexBase [])
          + hexDigitValue (digitChar (unat (v mod 16)) hexBase)"
      unfolding step by (subst intToString_loop_acc) (simp add: parseHex_snoc)
    also have "\<dots> = 16 * unat (v div 16) + unat (v mod 16)"
      unfolding less.hyps [OF lt] hexDigitValue_digitChar [OF d assms] ..
    also have "\<dots> = unat v"
      by (simp add: unat_div unat_mod)
    finally show ?thesis .
  qed
qed

lemma parseHex_intToString:
  "parseHex (snd (intToString v sz 16 cap)) = unat v"
  by (simp add: intToString_def Let_def parseHex_intToString_loop)
     (simp add: parseHex_def hexDigitValue_def)

lemma outInteger_plain_hex:
  "outInteger f v SignedNo (- 1) precision 0 16 cap =
     (sint (of_nat (fst (intToString v MaxIntegerBufferSize 16 cap)) :: 32 word),
      putChars (snd (intToString v MaxIntegerBufferSize 16 cap)) f)"
  by (simp add: outInteger_def isFlag_def Let_def split: prod.splits)

lemma hex_directive:
  "vprintf ts ''%x'' [VaInt v] =
     Inr (sint (of_nat (fst (intToString (scast v) MaxIntegerBufferSize 16 CapitalNo)) :: 32 word),
          \<lparr>fmt_s = ''%x'', va_args = [],
             sink = Device (snd (intToString (scast v) MaxIntegerBufferSize 16 CapitalNo))\<rparr>)"
proof -
  define r where "r = intToString (scast v) MaxIntegerBufferSize 16 CapitalNo"
  let ?f = "\<lparr>fmt_s = ''%x'', va_args = [VaInt v], sink = Device []\<rparr>"
  let ?f1 = "\<lparr>fmt_s = ''%x'', va_args = [], sink = Device []\<rparr>"
  let ?f2 = "\<lparr>fmt_s = ''%x'', va_args = [], sink = Device (snd r)\<rparr>"
  have 1: "getChar ?f 0 = Inr (CHR ''%'')"
    by (simp add: getChar_def)
  have 3: "getChar ?f 1 = Inr (CHR ''x'')"
    by (simp add: getChar_def)
  have hf: "handleFlags ?f 1 0 = Inr (1, 0)"
    using 3 by (simp add: handleFlags_no_flag flagOfChar_def)
  have hw: "handleWidth ?f 1 = Inr (- 1, 1, ?f)"
    by (rule handleWidth_no_number [OF 3]) simp_all
  have hl: "handleLength ?f 1 = Inr (LNone, 1)"
    by (rule handleLength_no_match [OF 3]) simp
  have 2: "doprintf_optional ?f (0 + 1) 0 = Inr (0, - 1, - 1, LNone, 1, ?f)"
    using hf hw hl 3 by (simp add: doprintf_optional_def)
  have g: "getInteger LNone ?f = Inr (v, ?f1)"
    by (simp add: getInteger_def getArg_def ucast_32_64_32)
  have m: "CHR ''x'' \<in> set ''diuoxX''"
    by simp
  have p: "putChars (snd r) ?f1 = ?f2"
    using putChars_Device [of ?f1 "[]" "snd r"] by simp
  have o: "outInteger ?f1 (scast v) SignedNo (- 1) (- 1) 0 16 CapitalNo =
      (sint (of_nat (fst r) :: 32 word), ?f2)"
    unfolding outInteger_plain_hex r_def [symmetric] p ..
  have sw: "doprintf_switch ts ?f 1 0 (- 1) (- 1) 0 LNone =
      Inr (?f2, 1, sint (of_nat (fst r) :: 32 word))"
    unfolding switch_integer [OF 3 m] g by (simp add: o)
  have e: "doprintf_loop ts ?f2 (1 + 1) 0 (sint (of_nat (fst r) :: 32 word)) =
      Inr (sint (of_nat (fst r) :: 32 word), ?f2)"
    by (simp add: doprintf_loop.simps [of ts ?f2] getChar_def sink_end_def)
  have "vprintf ts ''%x'' [VaInt v] = Inr (sint (of_nat (fst r) :: 32 word), ?f2)"
    unfolding vprintf_def doprintf_def doprintf_loop_directive(2) [OF 1 2 sw] by (rule e)
  then show ?thesis
    by (simp only: r_def)
qed

lemma hex_directive_reads_back_sign_extended:
  assumes "vprintf ts ''%x'' [VaInt v] = Inr (n, f)" "sink f = Device out"
  shows "parseHex out = unat (scast v :: 64 word)"
  using assms unfolding hex_directive by (auto simp: parseHex_intToString)

lemma hex_directive_reads_back_low:
  assumes "vprintf ts ''%x'' [VaInt v] = Inr (n, f)" "sink f = Device out" "v < 0x80000000"
  shows "parseHex out = unat v"
  using hex_directive_reads_back_sign_extended [OF assms(1,2)]
  by (simp only: scast_32_64_low [OF assms(3)] unat_ucast_32_64)

text \<open>
  C5. The claim is that formatting \<open>v\<close> with \<open>%x\<close> and parsing the digits as hexadecimal
  gives \<open>v\<close> back. Here the code is run on \<open>v = 0x80000000\<close>: \<open>getInteger\<close> returns it as an
  \<open>int32_t\<close>, which is sign-extended on its way into the \<open>uintmax_t\<close> parameter of
  \<open>outInteger\<close>, so sixteen digits are written and they read back as another number.
\<close>

theorem hex_of_high_bit_value_does_not_read_back:
  "vprintf (\<lambda>bits w p. []) ''%x'' [VaInt 0x80000000] =
     Inr (7, \<lparr>fmt_s = ''%x'', va_args = [], sink = Device ''ffffffff80000000''\<rparr>)
   \<and> parseHex ''ffffffff80000000'' = 0xFFFFFFFF80000000
   \<and> parseHex ''ffffffff80000000'' \<noteq> 0x80000000"
proof -
  have "intToString (scast (0x80000000 :: 32 word)) MaxIntegerBufferSize 16 CapitalNo =
      (7, ''ffffffff80000000'')"
    by code_simp
  then have "vprintf (\<lambda>bits w p. []) ''%x'' [VaInt 0x80000000] =
      Inr (7, \<lparr>fmt_s = ''%x'', va_args = [], sink = Device ''ffffffff80000000''\<rparr>)"
    by (simp only: hex_directive fst_conv snd_conv) simp
  moreover have "parseHex ''ffffffff80000000'' = 0xFFFFFFFF80000000"
    by (simp add: parseHex_def hexDigitValue_def)
  ultimately show ?thesis by simp
qed

section \<open>Strings\<close>

text \<open>
  \<open>outString\<close> in closed form, for a string argument \<open>s\<close>: the bytes of \<open>s\<close> and then the
  padding go to \<open>putChar\<close>, and the count returned is the length of \<open>s\<close>.
\<close>

lemma outString_loop_eq:
  "outString_loop p f sz =
     (sz + int (length (takeWhile (\<lambda>c. c \<noteq> CHR 0x00) p)),
      putChars (takeWhile (\<lambda>c. c \<noteq> CHR 0x00) p) f)"
proof (induction p arbitrary: f sz)
  case Nil
  show ?case by (simp add: outString_loop.simps [of "[]"] getStringChar_def)
next
  case (Cons c p)
  show ?case
    by (simp add: outString_loop.simps [of "c # p"] getStringChar_def Cons.IH)
qed

lemma outString_eq:
  assumes "CHR 0x00 \<notin> set s"
  shows "outString f s width precision flags =
     (int (length s),
      if width > int (length s) then putPad (nat (width - int (length s))) (CHR '' '') (putChars s f)
      else putChars s f)"
proof -
  have tw: "takeWhile (\<lambda>c. c \<noteq> CHR 0x00) s = s"
    using assms by (auto simp: takeWhile_eq_all_conv)
  show ?thesis
    unfolding outString_def outString_loop_eq tw by simp
qed

text \<open>
  C6. The claim is that \<open>%s\<close> with a width \<open>w\<close> above the length \<open>L\<close> of the string emits
  the string and \<open>w - L\<close> spaces behind it, and that the count returned by the field
  formatter, which is added to \<open>size\<close>, is the number of bytes emitted. Here the code is run
  on \<open>%5s\<close> with \<open>hi\<close>: the five bytes are emitted, and the count is 2, because the padding
  loop of \<open>outString\<close> does not count (the one of \<open>outInteger\<close> does).
\<close>

theorem string_padding_is_not_counted:
  "vprintf (\<lambda>bits w p. []) ''%5s'' [VaStr ''hi''] =
     Inr (2, \<lparr>fmt_s = ''%5s'', va_args = [], sink = Device ''hi   ''\<rparr>)"
  by code_simp

section \<open>Booleans\<close>

text \<open>
  C7. For every \<open>%b\<close> directive (whatever flags, width, precision and length its optional
  part has parsed), the \<open>switch\<close> fetches exactly one argument, with the tag \<open>i8\<close>: the
  \<open>va_list\<close> loses its first element \<open>w\<close>. The text \<open>true\<close> (for \<open>w \<noteq> 0\<close>) or \<open>false\<close> is
  handed to \<open>putChar\<close>, and the loop goes on behind the \<open>b\<close> with \<open>size\<close> as it was, so
  the value returned by the call does not count these characters.
\<close>

theorem bool_directive:
  assumes "getChar f fmt = Inr (CHR ''%'')"
    and "doprintf_optional f (fmt + 1) flags = Inr (flags1, width, precision, len, fmt1, f1)"
    and "getChar f1 fmt1 = Inr (CHR ''b'')"
    and "va_args f1 = VaInt w # rest"
  shows "getArg i8 f1 = Inr (ucast w, f1\<lparr>va_args := rest\<rparr>)
    \<and> doprintf_switch ts f1 fmt1 sz width precision flags1 len =
        Inr (putChars (if w \<noteq> 0 then ''true'' else ''false'') (f1\<lparr>va_args := rest\<rparr>),
             fmt1, sz)
    \<and> doprintf_loop ts f fmt flags sz =
        doprintf_loop ts
          (putChars (if w \<noteq> 0 then ''true'' else ''false'') (f1\<lparr>va_args := rest\<rparr>))
          (fmt1 + 1) flags1 sz"
proof -
  have g: "getArg i8 f1 = Inr (ucast w, f1\<lparr>va_args := rest\<rparr>)"
    using assms(4) by (simp add: getArg_VaInt)
  then have sw: "doprintf_switch ts f1 fmt1 sz width precision flags1 len =
      Inr (putChars (if w \<noteq> 0 then ''true'' else ''false'') (f1\<lparr>va_args := rest\<rparr>), fmt1, sz)"
    by (simp add: switch_b [OF assms(3)] ucast_32_64_eq_0)
  from g sw doprintf_loop_directive(2) [OF assms(1,2) sw] show ?thesis
    by (intro conjI)
qed

theorem bool_directive_witness:
  "vprintf (\<lambda>bits w p. []) ''%b'' [VaInt 1] =
     Inr (0, \<lparr>fmt_s = ''%b'', va_args = [], sink = Device ''true''\<rparr>)"
proof -
  let ?f = "\<lparr>fmt_s = ''%b'', va_args = [VaInt 1], sink = Device []\<rparr>"
  have 1: "getChar ?f 0 = Inr (CHR ''%'')"
    by code_simp
  have 2: "doprintf_optional ?f (0 + 1) 0 = Inr (0, - 1, - 1, LNone, 1, ?f)"
    by code_simp
  have 3: "getChar ?f 1 = Inr (CHR ''b'')"
    by code_simp
  have 4: "va_args ?f = VaInt 1 # []"
    by simp
  have "doprintf_loop (\<lambda>bits w p. []) (putChars ''true'' (?f\<lparr>va_args := []\<rparr>)) (1 + 1) 0 0 =
      Inr (0, \<lparr>fmt_s = ''%b'', va_args = [], sink = Device ''true''\<rparr>)"
    by code_simp
  with bool_directive [OF 1 2 3 4, of "\<lambda>bits w p. []" 0] show ?thesis
    by (simp add: vprintf_def doprintf_def)
qed

section \<open>Reading the format string\<close>

text \<open>
  Whenever the loop meets a \<open>%\<close> that is the last character in front of the terminator, it
  ends up reading two bytes behind the terminator.
\<close>

lemma trailing_percent_out_of_bounds:
  assumes "getChar f fmt = Inr (CHR ''%'')" "fmt + 1 = length (fmt_s f)"
  shows "doprintf_loop ts f fmt flags sz = Inl (OutOfBounds (fmt + 3))"
proof -
  have c: "getChar f (fmt + 1) = Inr (CHR 0x00)"
    using assms(2) by (simp add: getChar_def)
  have o: "doprintf_optional f (fmt + 1) flags = Inr (flags, - 1, - 1, LNone, fmt + 1, f)"
    by (rule doprintf_optional_at_terminator) (use assms(2) in simp)
  have sw: "doprintf_switch ts f (fmt + 1) sz (- 1) (- 1) flags LNone =
      Inr (putChar (CHR 0x00) f, fmt + 1 + 1, sz + 1)"
    by (rule switch_default [OF c]) simp
  have "getChar (putChar (CHR 0x00) f) (fmt + 1 + 1 + 1) = Inl (OutOfBounds (fmt + 3))"
    using assms(2) by (simp add: getChar_def)
  then show ?thesis
    unfolding doprintf_loop_directive(2) [OF assms(1) o sw]
    by (simp add: doprintf_loop.simps [of ts "putChar (CHR 0x00) f"])
qed

text \<open>
  C8. The claim is that the engine reads the format string only at offsets from 0 to the
  index of the terminator, also when the string ends with a bare \<open>%\<close>. Here the code is
  run on the format string \<open>%\<close>, whose terminator is at offset 1: the default case of the
  \<open>switch\<close> echoes the terminator and advances the cursor, the \<open>++fmt\<close> behind the \<open>switch\<close>
  advances it again, and the loop then reads offset 3.
\<close>

theorem trailing_percent_reads_past_terminator:
  "getChar \<lparr>fmt_s = ''%'', va_args = [], sink = Device []\<rparr> 1 = Inr (CHR 0x00)
   \<and> vprintf (\<lambda>bits w p. []) ''%'' [] = Inl (OutOfBounds 3)"
  by code_simp

section \<open>Unrecognized specifiers\<close>

text \<open>
  What the directive does when its specifier character \<open>c\<close> is none of
  \<open>d i u o x X f F e E g G c b s p\<close> (so also for the second \<open>%\<close> of \<open>%%\<close>): \<open>c\<close> itself is
  handed to \<open>putChar\<close>, \<open>size\<close> grows by exactly one, the cursor ends two behind where the
  optional part left it (one for the default case, one for the \<open>++fmt\<close> of every
  directive), and the \<open>switch\<close> takes nothing from the \<open>va_list\<close>. When \<open>c\<close> is the last
  character in front of the terminator, the cursor is then behind the terminator and the
  next read of the loop is out of bounds.
\<close>

lemma default_directive:
  assumes "getChar f fmt = Inr (CHR ''%'')"
    and "doprintf_optional f (fmt + 1) flags = Inr (flags1, width, precision, len, fmt1, f1)"
    and "getChar f1 fmt1 = Inr c" and "c \<notin> set ''diuoxXfFeEgGcbsp''"
  shows "doprintf_directive ts f (fmt + 1) flags sz = Inr (putChar c f1, fmt1 + 2, flags1, sz + 1)
    \<and> va_args (putChar c f1) = va_args f1
    \<and> doprintf_loop ts f fmt flags sz = doprintf_loop ts (putChar c f1) (fmt1 + 2) flags1 (sz + 1)"
proof -
  have sw: "doprintf_switch ts f1 fmt1 sz width precision flags1 len =
      Inr (putChar c f1, fmt1 + 1, sz + 1)"
    by (rule switch_default [OF assms(3,4)])
  from doprintf_loop_directive [OF assms(1,2) sw] show ?thesis
    by simp
qed

lemma default_directive_last_char:
  assumes "getChar f fmt = Inr (CHR ''%'')"
    and "doprintf_optional f (fmt + 1) flags = Inr (flags1, width, precision, len, fmt1, f1)"
    and "getChar f1 fmt1 = Inr c" and "c \<notin> set ''diuoxXfFeEgGcbsp''"
    and "fmt1 + 1 = length (fmt_s f1)"
  shows "doprintf_loop ts f fmt flags sz = Inl (OutOfBounds (fmt1 + 2))"
proof -
  have sw: "doprintf_switch ts f1 fmt1 sz width precision flags1 len =
      Inr (putChar c f1, fmt1 + 1, sz + 1)"
    by (rule switch_default [OF assms(3,4)])
  have "getChar (putChar c f1) (fmt1 + 1 + 1) = Inl (OutOfBounds (fmt1 + 2))"
    using assms(5) by (simp add: getChar_def)
  then show ?thesis
    unfolding doprintf_loop_directive(2) [OF assms(1,2) sw]
    by (simp add: doprintf_loop.simps [of ts "putChar c f1"])
qed

text \<open>
  C9. The claim is that a directive with an unrecognized specifier character, the second
  \<open>%\<close> of \<open>%%\<close> included, echoes the character, adds one to the count, advances the
  cursor by one more than every directive does, fetches no argument, and that the call
  does not fail. Here the code is run on the format string \<open>%%\<close>, whose terminator is at
  offset 2: the directive does echo \<open>%\<close>, count 1 and leave the cursor at 3, but the call
  does not end normally, because the loop then reads offset 3, behind the terminator.
\<close>

theorem percent_percent_reads_past_terminator:
  "doprintf_directive (\<lambda>bits w p. []) \<lparr>fmt_s = ''%%'', va_args = [], sink = Device []\<rparr> 1 0 0 =
     Inr (\<lparr>fmt_s = ''%%'', va_args = [], sink = Device ''%''\<rparr>, 3, 0, 1)
   \<and> getChar \<lparr>fmt_s = ''%%'', va_args = [], sink = Device []\<rparr> 2 = Inr (CHR 0x00)
   \<and> vprintf (\<lambda>bits w p. []) ''%%'' [] = Inl (OutOfBounds 3)"
  by code_simp

section \<open>Floats\<close>

text \<open>
  C10. For every directive with one of the specifiers \<open>f F e E g G\<close>, the \<open>switch\<close> fetches
  exactly one argument, with the tag \<open>flt\<close>: the \<open>va_list\<close> loses its first element. What
  \<open>toString\<close> makes of it, of the width and of the precision (6 when there is none) is
  handed to \<open>putChar\<close> up to the first terminator, and the loop goes on behind the
  specifier with \<open>size\<close> as it was, so the value returned by the call counts none of
  these characters.
\<close>

theorem float_directive:
  assumes "getChar f fmt = Inr (CHR ''%'')"
    and "doprintf_optional f (fmt + 1) flags = Inr (flags1, width, precision, len, fmt1, f1)"
    and "getChar f1 fmt1 = Inr c" and "c \<in> set ''fFeEgG''"
    and "va_args f1 = VaDouble bits # rest"
  shows "getArg flt f1 = Inr (ucast bits, f1\<lparr>va_args := rest\<rparr>)
    \<and> doprintf_switch ts f1 fmt1 sz width precision flags1 len =
        Inr (putChars
               (takeWhile (\<lambda>b. b \<noteq> CHR 0x00)
                  (ts bits (word_of_int width)
                     (word_of_int (if precision < 0 then 6 else precision))))
               (f1\<lparr>va_args := rest\<rparr>),
             fmt1, sz)
    \<and> doprintf_loop ts f fmt flags sz =
        doprintf_loop ts
          (putChars
             (takeWhile (\<lambda>b. b \<noteq> CHR 0x00)
                (ts bits (word_of_int width)
                   (word_of_int (if precision < 0 then 6 else precision))))
             (f1\<lparr>va_args := rest\<rparr>))
          (fmt1 + 1) flags1 sz"
proof -
  have g: "getArg flt f1 = Inr (ucast bits, f1\<lparr>va_args := rest\<rparr>)"
    using assms(5) by (rule getArg_VaDouble)
  then have sw: "doprintf_switch ts f1 fmt1 sz width precision flags1 len =
      Inr (putChars
          (takeWhile (\<lambda>b. b \<noteq> CHR 0x00)
             (ts bits (word_of_int width) (word_of_int (if precision < 0 then 6 else precision))))
          (f1\<lparr>va_args := rest\<rparr>), fmt1, sz)"
    by (simp add: switch_float [OF assms(3,4)] ucast_32_64_32)
  from g sw doprintf_loop_directive(2) [OF assms(1,2) sw] show ?thesis
    by (intro conjI)
qed

theorem float_directive_witness:
  "vprintf (\<lambda>bits w p. ''1.5'') ''%f'' [VaDouble 0x3FC00000] =
     Inr (0, \<lparr>fmt_s = ''%f'', va_args = [], sink = Device ''1.5''\<rparr>)"
proof -
  let ?f = "\<lparr>fmt_s = ''%f'', va_args = [VaDouble 0x3FC00000], sink = Device []\<rparr>"
  let ?ts = "\<lambda>(bits :: 32 word) (w :: 8 word) (p :: 8 word). ''1.5''"
  have 1: "getChar ?f 0 = Inr (CHR ''%'')"
    by code_simp
  have 2: "doprintf_optional ?f (0 + 1) 0 = Inr (0, - 1, - 1, LNone, 1, ?f)"
    by code_simp
  have 3: "getChar ?f 1 = Inr (CHR ''f'')"
    by code_simp
  have 4: "CHR ''f'' \<in> set ''fFeEgG''"
    by simp
  have 5: "va_args ?f = VaDouble 0x3FC00000 # []"
    by simp
  have "doprintf_loop ?ts (putChars ''1.5'' (?f\<lparr>va_args := []\<rparr>)) (1 + 1) 0 0 =
      Inr (0, \<lparr>fmt_s = ''%f'', va_args = [], sink = Device ''1.5''\<rparr>)"
    by code_simp
  with float_directive [OF 1 2 3 4 5, of ?ts 0] show ?thesis
    by (simp add: vprintf_def doprintf_def)
qed

end
